theory Spec2Isabelle
  imports Main
begin

section \<open>Python values and failures\<close>

text \<open>
  The exporter \<^verbatim>\<open>resources/featureLoader.py\<close> executes a configuration script, reads its
  module-level \<^verbatim>\<open>BUILD_OPTIONS\<close> and prints the \<^verbatim>\<open>__dict__\<close> of every element as JSON,
  the elements between brackets and separated by a comma and a newline.

  The values an attribute can hold, as far as \<^verbatim>\<open>json.dumps\<close> is concerned.  A Python
  \<^verbatim>\<open>str\<close> is a \<open>string\<close> whose characters are the code points below 256; a dictionary
  has \<^verbatim>\<open>str\<close> keys and keeps its insertion order; \<open>PUnserializable\<close> stands for every
  value the default encoder rejects (a set, bytes, an arbitrary instance).  Floats and
  tuples are not modelled.
\<close>

datatype pyval =
    PNone
  | PBool bool
  | PInt int
  | PStr string
  | PList "pyval list"
  | PDict "(string \<times> pyval) list"
  | PUnserializable

datatype py_error = AttributeError | TypeError | IndexError | LoadError

section \<open>The encoder: \<^verbatim>\<open>json.dumps\<close> with its default arguments\<close>

definition dquote :: char where
  "dquote = CHR 0x22"

definition backslash :: char where
  "backslash = CHR 0x5C"

definition hex_digit :: "nat \<Rightarrow> char" where
  "hex_digit n = ''0123456789abcdef'' ! (n mod 16)"

text \<open>
  \<^verbatim>\<open>py_encode_basestring_ascii\<close>: the quote and the backslash are escaped, the five
  control characters with a short form use it, and every other character outside
  the range from space to tilde becomes \<^verbatim>\<open>\uXXXX\<close> in lower-case hexadecimal.
\<close>

definition escape_char :: "char \<Rightarrow> string" where
  "escape_char c =
     (if c = backslash then [backslash, backslash]
      else if c = dquote then [backslash, dquote]
      else if c = CHR 0x08 then [backslash, CHR ''b'']
      else if c = CHR 0x0C then [backslash, CHR ''f'']
      else if c = CHR 0x0A then [backslash, CHR ''n'']
      else if c = CHR 0x0D then [backslash, CHR ''r'']
      else if c = CHR 0x09 then [backslash, CHR ''t'']
      else if (of_char c :: nat) < 0x20 \<or> 0x7E < (of_char c :: nat) then
        [backslash, CHR ''u'', CHR ''0'', CHR ''0'',
         hex_digit (of_char c div 16), hex_digit (of_char c mod 16)]
      else [c])"

definition encode_str :: "string \<Rightarrow> string" where
  "encode_str s = dquote # concat (map escape_char s) @ [dquote]"

definition digit_char :: "nat \<Rightarrow> char" where
  "digit_char n = ''0123456789'' ! (n mod 10)"

function nat_repr :: "nat \<Rightarrow> string" where
  "nat_repr n = (if n < 10 then [digit_char n] else nat_repr (n div 10) @ [digit_char n])"
  by pat_completeness auto
termination
  by (relation "measure id") auto

declare nat_repr.simps [simp del]

definition int_repr :: "int \<Rightarrow> string" where
  "int_repr i = (if i < 0 then CHR ''-'' # nat_repr (nat (- i)) else nat_repr (nat i))"

text \<open>\<^verbatim>\<open>sep.join(parts)\<close>.\<close>

fun join :: "string \<Rightarrow> string list \<Rightarrow> string" where
  "join sep [] = []"
| "join sep [x] = x"
| "join sep (x # y # ys) = x @ sep @ join sep (y # ys)"

text \<open>
  The encoder proper.  Items are separated by \<^verbatim>\<open>", "\<close> and a key from its value by
  \<^verbatim>\<open>": "\<close>; a value the encoder does not know raises \<^verbatim>\<open>TypeError\<close> and nothing is
  returned.
\<close>

fun dumps :: "pyval \<Rightarrow> py_error + string"
  and dumps_items :: "pyval list \<Rightarrow> py_error + string list"
  and dumps_pairs :: "(string \<times> pyval) list \<Rightarrow> py_error + string list"
where
  "dumps PNone = Inr ''null''"
| "dumps (PBool b) = Inr (if b then ''true'' else ''false'')"
| "dumps (PInt i) = Inr (int_repr i)"
| "dumps (PStr s) = Inr (encode_str s)"
| "dumps (PList xs) =
     (case dumps_items xs of
        Inl e \<Rightarrow> Inl e
      | Inr parts \<Rightarrow> Inr (''['' @ join '', '' parts @ '']''))"
| "dumps (PDict kvs) =
     (case dumps_pairs kvs of
        Inl e \<Rightarrow> Inl e
      | Inr parts \<Rightarrow> Inr (''{'' @ join '', '' parts @ ''}''))"
| "dumps PUnserializable = Inl TypeError"
| "dumps_items [] = Inr []"
| "dumps_items (x # xs) =
     (case dumps x of
        Inl e \<Rightarrow> Inl e
      | Inr s \<Rightarrow> (case dumps_items xs of Inl e \<Rightarrow> Inl e | Inr ss \<Rightarrow> Inr (s # ss)))"
| "dumps_pairs [] = Inr []"
| "dumps_pairs (kv # kvs) =
     (case dumps (snd kv) of
        Inl e \<Rightarrow> Inl e
      | Inr s \<Rightarrow>
          (case dumps_pairs kvs of
             Inl e \<Rightarrow> Inl e
           | Inr ss \<Rightarrow> Inr ((encode_str (fst kv) @ '': '' @ s) # ss)))"

section \<open>The exporter\<close>

text \<open>
  An element of \<^verbatim>\<open>BUILD_OPTIONS\<close>: its identity (\<^verbatim>\<open>id(obj)\<close>) and its \<^verbatim>\<open>__dict__\<close>, the
  instance attributes by name, which is absent for an object without instance dictionary.
\<close>

record pyobject =
  obj_id :: nat
  obj_dict :: "(string \<times> pyval) list option"

text \<open>
  What the attribute access \<^verbatim>\<open>module.BUILD_OPTIONS\<close> finds: nothing, a value that cannot
  be iterated, or a list or tuple.
\<close>

datatype build_options_attr =
    Missing
  | NotIterable
  | Sequence "pyobject list"

text \<open>
  The module left behind by executing the configuration script.  The classes of the
  script decide what \<^verbatim>\<open>a == b\<close> answers for its objects; \<open>obj_eq\<close> is that answer.
\<close>

record pymodule =
  BUILD_OPTIONS :: build_options_attr
  obj_eq :: "pyobject \<Rightarrow> pyobject \<Rightarrow> bool"

text \<open>\<^verbatim>\<open>object.__eq__\<close>, which a class inherits unless it defines its own: identity.\<close>

definition default_eq :: "pyobject \<Rightarrow> pyobject \<Rightarrow> bool" where
  "default_eq a b = (obj_id a = obj_id b)"

datatype exit_status = Exit nat | Uncaught py_error

text \<open>An uncaught exception ends the interpreter with status 1.\<close>

fun exit_code :: "exit_status \<Rightarrow> nat" where
  "exit_code (Exit n) = n"
| "exit_code (Uncaught e) = 1"

record run =
  stdout :: string
  status :: exit_status

text \<open>\<^verbatim>\<open>seq[-1]\<close>, which raises on the empty sequence.\<close>

fun last_item :: "'a list \<Rightarrow> py_error + 'a" where
  "last_item [] = Inl IndexError"
| "last_item (x # xs) = Inr (last (x # xs))"

text \<open>\<^verbatim>\<open>json.dumps(option.__dict__)\<close>, the argument of both \<^verbatim>\<open>print\<close> calls.\<close>

definition serialize :: "pyobject \<Rightarrow> py_error + string" where
  "serialize option =
     (case obj_dict option of
        None \<Rightarrow> Inl AttributeError
      | Some d \<Rightarrow> dumps (PDict d))"

text \<open>
  The \<^verbatim>\<open>for\<close> loop of lines 17 to 22: \<open>opts\<close> is the whole sequence, the third
  argument what is still to be visited and \<open>out\<close> the text printed so far.  The result
  is the text printed and the exception that ended the loop, if any.
\<close>

fun export_loop ::
  "(pyobject \<Rightarrow> pyobject \<Rightarrow> bool) \<Rightarrow> pyobject list \<Rightarrow> pyobject list \<Rightarrow> string
     \<Rightarrow> string \<times> py_error option"
where
  "export_loop eq opts [] out = (out, None)"
| "export_loop eq opts (option # rest) out =
     (case last_item opts of
        Inl e \<Rightarrow> (out, Some e)
      | Inr final \<Rightarrow>
          if eq option final then
            (case serialize option of
               Inl e \<Rightarrow> (out, Some e)
             | Inr s \<Rightarrow> export_loop eq opts rest (out @ s))
          else
            (case serialize option of
               Inl e \<Rightarrow> (out, Some e)
             | Inr s \<Rightarrow> export_loop eq opts rest (out @ s @ [CHR '','', CHR 0x0A])))"

text \<open>
  The script body.  \<open>exec_script\<close> is the interpreter's loading of the file at a path
  (lines 11 to 13): it raises or yields the executed module.  \<open>argv\<close> is \<^verbatim>\<open>sys.argv\<close>,
  the program name first.  Text the configuration script itself prints while it is
  executed is not part of \<open>stdout\<close>.
\<close>

definition main :: "(string \<Rightarrow> py_error + pymodule) \<Rightarrow> string list \<Rightarrow> run" where
  "main exec_script argv =
     (if length argv \<noteq> 2 then \<lparr>stdout = [], status = Exit 1\<rparr>
      else
        case exec_script (argv ! 1) of
          Inl e \<Rightarrow> \<lparr>stdout = [], status = Uncaught e\<rparr>
        | Inr module \<Rightarrow>
            (case BUILD_OPTIONS module of
               Missing \<Rightarrow> \<lparr>stdout = ''['', status = Uncaught AttributeError\<rparr>
             | NotIterable \<Rightarrow> \<lparr>stdout = ''['', status = Uncaught TypeError\<rparr>
             | Sequence opts \<Rightarrow>
                 (case export_loop (obj_eq module) opts opts ''['' of
                    (out, Some e) \<Rightarrow> \<lparr>stdout = out, status = Uncaught e\<rparr>
                  | (out, None) \<Rightarrow> \<lparr>stdout = out @ [CHR '']'', CHR 0x0A], status = Exit 0\<rparr>)))"

section \<open>JSON texts\<close>

text \<open>
  What the consumer of the output reads: the JSON grammar of RFC 8259.  A string is the
  list of its code units, a number without fraction and exponent is an integer, any
  other number keeps its literal.
\<close>

datatype json =
    JNull
  | JBool bool
  | JInt int
  | JNumber string
  | JString "nat list"
  | JArray "json list"
  | JObject "(nat list \<times> json) list"

datatype parse_error = SyntaxError | OutOfFuel

definition is_ws :: "char \<Rightarrow> bool" where
  "is_ws c = (c = CHR '' '' \<or> c = CHR 0x0A \<or> c = CHR 0x0D \<or> c = CHR 0x09)"

definition is_digit :: "char \<Rightarrow> bool" where
  "is_digit c = (48 \<le> (of_char c :: nat) \<and> (of_char c :: nat) \<le> 57)"

fun skip_ws :: "string \<Rightarrow> string" where
  "skip_ws [] = []"
| "skip_ws (c # cs) = (if is_ws c then skip_ws cs else c # cs)"

definition hex_value :: "char \<Rightarrow> nat option" where
  "hex_value c =
     (if is_digit c then Some (of_char c - 48)
      else if 97 \<le> (of_char c :: nat) \<and> (of_char c :: nat) \<le> 102 then Some (of_char c - 87)
      else if 65 \<le> (of_char c :: nat) \<and> (of_char c :: nat) \<le> 70 then Some (of_char c - 55)
      else None)"

definition hex4 :: "char \<Rightarrow> char \<Rightarrow> char \<Rightarrow> char \<Rightarrow> nat option" where
  "hex4 a b c d =
     (case (hex_value a, hex_value b, hex_value c, hex_value d) of
        (Some w, Some x, Some y, Some z) \<Rightarrow> Some (((w * 16 + x) * 16 + y) * 16 + z)
      | _ \<Rightarrow> None)"

definition simple_escape :: "char \<Rightarrow> nat option" where
  "simple_escape e =
     (if e = dquote then Some 0x22
      else if e = backslash then Some 0x5C
      else if e = CHR ''/'' then Some 0x2F
      else if e = CHR ''b'' then Some 0x08
      else if e = CHR ''f'' then Some 0x0C
      else if e = CHR ''n'' then Some 0x0A
      else if e = CHR ''r'' then Some 0x0D
      else if e = CHR ''t'' then Some 0x09
      else None)"

text \<open>The characters of a string up to its closing quote, the opening quote already read.\<close>

fun p_chars :: "string \<Rightarrow> (nat list \<times> string) option" where
  "p_chars [] = None"
| "p_chars (c # cs) =
     (if c = dquote then Some ([], cs)
      else if c = backslash then
        (case cs of
           [] \<Rightarrow> None
         | e # r \<Rightarrow>
             if e = CHR ''u'' then
               (case r of
                  h1 # h2 # h3 # h4 # r' \<Rightarrow>
                    (case hex4 h1 h2 h3 h4 of
                       None \<Rightarrow> None
                     | Some u \<Rightarrow> map_option (\<lambda>(us, t). (u # us, t)) (p_chars r'))
                | _ \<Rightarrow> None)
             else
               (case simple_escape e of
                  None \<Rightarrow> None
                | Some u \<Rightarrow> map_option (\<lambda>(us, t). (u # us, t)) (p_chars r)))
      else if (of_char c :: nat) < 0x20 then None
      else map_option (\<lambda>(us, t). (of_char c # us, t)) (p_chars cs))"

definition nat_of_digits :: "string \<Rightarrow> nat" where
  "nat_of_digits ds = foldl (\<lambda>a c. 10 * a + (of_char c - 48)) 0 ds"

definition p_frac :: "string \<Rightarrow> (string \<times> string) option" where
  "p_frac s =
     (case s of
        [] \<Rightarrow> Some ([], [])
      | c # r \<Rightarrow>
          if c = CHR ''.'' then
            (if takeWhile is_digit r = [] then None
             else Some (c # takeWhile is_digit r, dropWhile is_digit r))
          else Some ([], s))"

definition p_exp :: "string \<Rightarrow> (string \<times> string) option" where
  "p_exp s =
     (case s of
        [] \<Rightarrow> Some ([], [])
      | c # r \<Rightarrow>
          if c = CHR ''e'' \<or> c = CHR ''E'' then
            (let sgn = (case r of [] \<Rightarrow> [] | d # _ \<Rightarrow> if d = CHR ''+'' \<or> d = CHR ''-'' then [d] else []);
                 r' = drop (length sgn) r
             in if takeWhile is_digit r' = [] then None
                else Some (c # sgn @ takeWhile is_digit r', dropWhile is_digit r'))
          else Some ([], s))"

definition p_number :: "string \<Rightarrow> (json \<times> string) option" where
  "p_number s =
     (let neg = (s \<noteq> [] \<and> hd s = CHR ''-'');
          s1 = (if neg then tl s else s);
          ds = takeWhile is_digit s1
      in if ds = [] \<or> (hd ds = CHR ''0'' \<and> 1 < length ds) then None
         else
           case p_frac (dropWhile is_digit s1) of
             None \<Rightarrow> None
           | Some (fr, s2) \<Rightarrow>
               (case p_exp s2 of
                  None \<Rightarrow> None
                | Some (ex, s3) \<Rightarrow>
                    if fr = [] \<and> ex = [] then
                      Some (JInt (if neg then - int (nat_of_digits ds) else int (nat_of_digits ds)), s3)
                    else Some (JNumber ((if neg then ''-'' else []) @ ds @ fr @ ex), s3)))"

definition lift_syntax :: "'a option \<Rightarrow> parse_error + 'a" where
  "lift_syntax r = (case r of None \<Rightarrow> Inl SyntaxError | Some x \<Rightarrow> Inr x)"

text \<open>
  A value, the elements of an array up to its bracket and the members of an object up to
  its brace, each with the text left over.  Every call uses one unit of fuel, and
  \<open>OutOfFuel\<close> is kept apart from \<open>SyntaxError\<close>.
\<close>

fun p_value :: "nat \<Rightarrow> string \<Rightarrow> parse_error + json \<times> string"
  and p_elements :: "nat \<Rightarrow> string \<Rightarrow> parse_error + json list \<times> string"
  and p_members :: "nat \<Rightarrow> string \<Rightarrow> parse_error + (nat list \<times> json) list \<times> string"
where
  "p_value 0 s = Inl OutOfFuel"
| "p_value (Suc n) [] = Inl SyntaxError"
| "p_value (Suc n) (c # cs) =
     (if c = CHR ''['' then
        (case skip_ws cs of
           [] \<Rightarrow> Inl SyntaxError
         | d # ds \<Rightarrow>
             if d = CHR '']'' then Inr (JArray [], ds)
             else (case p_elements n (d # ds) of
                     Inl e \<Rightarrow> Inl e
                   | Inr (vs, r) \<Rightarrow> Inr (JArray vs, r)))
      else if c = CHR ''{'' then
        (case skip_ws cs of
           [] \<Rightarrow> Inl SyntaxError
         | d # ds \<Rightarrow>
             if d = CHR ''}'' then Inr (JObject [], ds)
             else (case p_members n (d # ds) of
                     Inl e \<Rightarrow> Inl e
                   | Inr (ms, r) \<Rightarrow> Inr (JObject ms, r)))
      else if c = dquote then
        lift_syntax (map_option (\<lambda>(us, r). (JString us, r)) (p_chars cs))
      else if take 4 (c # cs) = ''true'' then Inr (JBool True, drop 4 (c # cs))
      else if take 5 (c # cs) = ''false'' then Inr (JBool False, drop 5 (c # cs))
      else if take 4 (c # cs) = ''null'' then Inr (JNull, drop 4 (c # cs))
      else lift_syntax (p_number (c # cs)))"
| "p_elements 0 s = Inl OutOfFuel"
| "p_elements (Suc n) s =
     (case p_value n s of
        Inl e \<Rightarrow> Inl e
      | Inr (v, r) \<Rightarrow>
          (case skip_ws r of
             [] \<Rightarrow> Inl SyntaxError
           | d # ds \<Rightarrow>
               if d = CHR '']'' then Inr ([v], ds)
               else if d = CHR '','' then
                 (case p_elements n (skip_ws ds) of
                    Inl e \<Rightarrow> Inl e
                  | Inr (vs, r') \<Rightarrow> Inr (v # vs, r'))
               else Inl SyntaxError))"
| "p_members 0 s = Inl OutOfFuel"
| "p_members (Suc n) [] = Inl SyntaxError"
| "p_members (Suc n) (q # s) =
     (if q \<noteq> dquote then Inl SyntaxError
      else
        case p_chars s of
          None \<Rightarrow> Inl SyntaxError
        | Some (k, r) \<Rightarrow>
            (case skip_ws r of
               [] \<Rightarrow> Inl SyntaxError
             | col # r1 \<Rightarrow>
                 if col \<noteq> CHR '':'' then Inl SyntaxError
                 else
                   (case p_value n (skip_ws r1) of
                      Inl e \<Rightarrow> Inl e
                    | Inr (v, r2) \<Rightarrow>
                        (case skip_ws r2 of
                           [] \<Rightarrow> Inl SyntaxError
                         | d # ds \<Rightarrow>
                             if d = CHR ''}'' then Inr ([(k, v)], ds)
                             else if d = CHR '','' then
                               (case p_members n (skip_ws ds) of
                                  Inl e \<Rightarrow> Inl e
                                | Inr (ms, r') \<Rightarrow> Inr ((k, v) # ms, r'))
                             else Inl SyntaxError))))"

text \<open>
  A JSON text is one value with optional white space around it.  Twice the length of the
  text, and one, is fuel enough for any text.
\<close>

definition parse_json :: "string \<Rightarrow> parse_error + json" where
  "parse_json s =
     (case p_value (2 * length s + 1) (skip_ws s) of
        Inl e \<Rightarrow> Inl e
      | Inr (v, r) \<Rightarrow> if skip_ws r = [] then Inr v else Inl SyntaxError)"

text \<open>
  The JSON value a Python value stands for under the default conventions of the encoder:
  \<^verbatim>\<open>None\<close> is \<^verbatim>\<open>null\<close>, a bool a boolean, an int a number, a str a string, a list an
  array and a dict an object with the same keys in the same order.
\<close>

fun json_of :: "pyval \<Rightarrow> json option"
  and json_of_items :: "pyval list \<Rightarrow> json list option"
  and json_of_pairs :: "(string \<times> pyval) list \<Rightarrow> (nat list \<times> json) list option"
where
  "json_of PNone = Some JNull"
| "json_of (PBool b) = Some (JBool b)"
| "json_of (PInt i) = Some (JInt i)"
| "json_of (PStr s) = Some (JString (map of_char s))"
| "json_of (PList xs) = map_option JArray (json_of_items xs)"
| "json_of (PDict kvs) = map_option JObject (json_of_pairs kvs)"
| "json_of PUnserializable = None"
| "json_of_items [] = Some []"
| "json_of_items (x # xs) =
     (case json_of x of
        None \<Rightarrow> None
      | Some j \<Rightarrow> map_option ((#) j) (json_of_items xs))"
| "json_of_pairs [] = Some []"
| "json_of_pairs (kv # kvs) =
     (case json_of (snd kv) of
        None \<Rightarrow> None
      | Some j \<Rightarrow> map_option ((#) (map of_char (fst kv), j)) (json_of_pairs kvs))"

text \<open>The lines of a text, counted by their terminators.\<close>

definition line_count :: "string \<Rightarrow> nat" where
  "line_count s = length (filter (\<lambda>c. c = CHR 0x0A) s)"

section \<open>Notions used in the statements\<close>

text \<open>
  What the loop prints for one element whose serialization is \<open>t\<close>: the text and, unless
  the element compares equal to the last one, the separator.
\<close>

definition printed ::
  "(pyobject \<Rightarrow> pyobject \<Rightarrow> bool) \<Rightarrow> pyobject list \<Rightarrow> pyobject \<Rightarrow> string \<Rightarrow> string" where
  "printed eq opts option t = t @ (if eq option (last opts) then [] else [CHR '','', CHR 0x0A])"

text \<open>
  The test of line 19 singles out the last element: the last element compares equal to
  itself and no earlier element compares equal to it.
\<close>

definition last_recognised :: "(pyobject \<Rightarrow> pyobject \<Rightarrow> bool) \<Rightarrow> pyobject list \<Rightarrow> bool" where
  "last_recognised eq opts =
     (opts = [] \<or>
      (eq (last opts) (last opts) \<and> list_all (\<lambda>option. \<not> eq option (last opts)) (butlast opts)))"

text \<open>A text after which a number literal cannot go on, and a character that begins a value.\<close>

definition number_end :: "string \<Rightarrow> bool" where
  "number_end rest =
     (case rest of
        [] \<Rightarrow> True
      | c # _ \<Rightarrow> \<not> is_digit c \<and> c \<noteq> CHR ''.'' \<and> c \<noteq> CHR ''e'' \<and> c \<noteq> CHR ''E'')"

definition value_start :: "char \<Rightarrow> bool" where
  "value_start c = (\<not> is_ws c \<and> c \<noteq> CHR '']'' \<and> c \<noteq> CHR ''}'')"

section \<open>Concrete configuration scripts\<close>

text \<open>
  An interpreter that finds, at every path, a script whose \<^verbatim>\<open>BUILD_OPTIONS\<close> is the given
  list of instances of a class without \<^verbatim>\<open>__eq__\<close> of its own, and one whose script
  defines no \<^verbatim>\<open>BUILD_OPTIONS\<close>.
\<close>

definition script_with :: "pyobject list \<Rightarrow> string \<Rightarrow> py_error + pymodule" where
  "script_with opts path = Inr \<lparr>BUILD_OPTIONS = Sequence opts, obj_eq = default_eq\<rparr>"


definition one_argument :: "string list" where
  "one_argument = [''featureLoader.py'', ''build_options.py'']"

definition enable_x :: pyobject where
  "enable_x =
     \<lparr>obj_id = 1, obj_dict = Some [(''name'', PStr ''ENABLE_X''), (''default'', PBool True)]\<rparr>"

definition enable_y :: pyobject where
  "enable_y =
     \<lparr>obj_id = 2, obj_dict = Some [(''name'', PStr ''ENABLE_Y''), (''default'', PBool False)]\<rparr>"

text \<open>The object with identity \<open>i\<close> of a class with the single field \<^verbatim>\<open>name\<close>.\<close>

definition feature :: "nat \<Rightarrow> pyobject" where
  "feature i = \<lparr>obj_id = i, obj_dict = Some [(''name'', PStr ''X'')]\<rparr>"


text \<open>
  A script whose records are instances of a class with an \<^verbatim>\<open>__eq__\<close> that compares the
  fields, as the one a dataclass generates does for the records used below.
\<close>

definition fields_eq :: "pyobject \<Rightarrow> pyobject \<Rightarrow> bool" where
  "fields_eq a b = (obj_dict a = obj_dict b)"

definition dataclass_script :: "pyobject list \<Rightarrow> string \<Rightarrow> py_error + pymodule" where
  "dataclass_script opts path = Inr \<lparr>BUILD_OPTIONS = Sequence opts, obj_eq = fields_eq\<rparr>"

section \<open>Auxiliary facts\<close>



subsection \<open>The fuel does not matter\<close>

lemma more_fuel:
  "p_value n s \<noteq> Inl OutOfFuel \<Longrightarrow> p_value (Suc n) s = p_value n s"
  "p_elements n s \<noteq> Inl OutOfFuel \<Longrightarrow> p_elements (Suc n) s = p_elements n s"
  "p_members n s \<noteq> Inl OutOfFuel \<Longrightarrow> p_members (Suc n) s = p_members n s"
proof (induction n s and n s and n s rule: p_value_p_elements_p_members.induct)
  case (1 s)
  then show ?case by simp
next
  case (2 n)
  then show ?case by simp
next
  case (3 n c cs)
  show ?case
  proof (cases "c = CHR ''[''")
    case True
    show ?thesis
    proof (cases "skip_ws cs")
      case Nil
      then show ?thesis using True by simp
    next
      case (Cons d ds)
      show ?thesis
      proof (cases "d = CHR '']''")
        case True
        then show ?thesis using \<open>c = CHR ''[''\<close> Cons by simp
      next
        case False
        have "p_elements n (d # ds) \<noteq> Inl OutOfFuel"
          using "3.prems" True Cons False by (auto split: sum.splits)
        from "3.IH"(1) [OF True Cons False this] show ?thesis
          using True Cons False by simp
      qed
    qed
  next
    case notarr: False
    show ?thesis
    proof (cases "c = CHR ''{''")
      case True
      show ?thesis
      proof (cases "skip_ws cs")
        case Nil
        then show ?thesis using True notarr by simp
      next
        case (Cons d ds)
        show ?thesis
        proof (cases "d = CHR ''}''")
          case True
          then show ?thesis using \<open>c = CHR ''{''\<close> Cons by simp
        next
          case False
          have "p_members n (d # ds) \<noteq> Inl OutOfFuel"
            using "3.prems" True Cons False by (auto split: sum.splits)
          from "3.IH"(2) [OF notarr True Cons False this] show ?thesis
            using True Cons False by simp
        qed
      qed
    next
      case False
      then show ?thesis using notarr by simp
    qed
  qed
next
  case (4 s)
  then show ?case by simp
next
  case (5 n s)
  from "5.prems" have v: "p_value n s \<noteq> Inl OutOfFuel"
    by (auto split: sum.splits)
  note step = "5.IH"(1) [OF v]
  show ?case
  proof (cases "p_value n s")
    case (Inl e)
    then show ?thesis using step by simp
  next
    case (Inr vr)
    obtain v r where vr: "vr = (v, r)" by (cases vr) auto
    show ?thesis
    proof (cases "skip_ws r")
      case Nil
      then show ?thesis using step Inr vr by simp
    next
      case (Cons d ds)
      show ?thesis
      proof (cases "d \<noteq> CHR '']'' \<and> d = CHR '',''")
        case True
        then have "p_elements n (skip_ws ds) \<noteq> Inl OutOfFuel"
          using "5.prems" Inr vr Cons by (auto split: sum.splits)
        from "5.IH"(2) [OF Inr vr [symmetric] Cons _ _ this] True
        show ?thesis using step Inr vr Cons by simp
      next
        case False
        then show ?thesis using step Inr vr Cons by auto
      qed
    qed
  qed
next
  case (6 s)
  then show ?case by simp
next
  case (7 n)
  then show ?case by simp
next
  case (8 n q s)
  show ?case
  proof (cases "q \<noteq> dquote")
    case True
    then show ?thesis by simp
  next
    case q: False
    show ?thesis
    proof (cases "p_chars s")
      case None
      then show ?thesis using q by simp
    next
      case (Some kr)
      obtain k r where kr: "kr = (k, r)" by (cases kr) auto
      show ?thesis
      proof (cases "skip_ws r")
        case Nil
        then show ?thesis using q Some kr by simp
      next
        case (Cons col r1)
        show ?thesis
        proof (cases "col \<noteq> CHR '':''")
          case True
          then show ?thesis using q Some kr Cons by simp
        next
          case col: False
          from "8.prems" have v: "p_value n (skip_ws r1) \<noteq> Inl OutOfFuel"
            using q Some kr Cons col by (auto split: sum.splits)
          note step = "8.IH"(1) [OF q Some kr [symmetric] Cons col v]
          show ?thesis
          proof (cases "p_value n (skip_ws r1)")
            case (Inl e)
            then show ?thesis using step q Some kr Cons col by simp
          next
            case (Inr vr)
            obtain v r2 where vr: "vr = (v, r2)" by (cases vr) auto
            show ?thesis
            proof (cases "skip_ws r2")
              case Nil
              then show ?thesis using step q Some kr Cons col Inr vr by simp
            next
              case c2: (Cons d ds)
              show ?thesis
              proof (cases "d \<noteq> CHR ''}'' \<and> d = CHR '',''")
                case True
                then have "p_members n (skip_ws ds) \<noteq> Inl OutOfFuel"
                  using "8.prems" q Some kr Cons col Inr vr c2 by (auto split: sum.splits)
                from "8.IH"(2) [OF q Some kr [symmetric] Cons col Inr vr [symmetric] c2 _ _ this] True
                show ?thesis using step q Some kr Cons col Inr vr c2 by simp
              next
                case False
                then show ?thesis using step q Some kr Cons col Inr vr c2 by auto
              qed
            qed
          qed
        qed
      qed
    qed
  qed
qed

lemma fuel_irrelevant:
  assumes "p_value n s \<noteq> Inl OutOfFuel" "n \<le> n'"
  shows "p_value n' s = p_value n s"
proof -
  have "p_value (n + k) s = p_value n s" for k
  proof (induction k)
    case 0
    show ?case by simp
  next
    case (Suc k)
    then have "p_value (n + k) s \<noteq> Inl OutOfFuel" using assms(1) by simp
    from more_fuel(1) [OF this] Suc show ?case by simp
  qed
  from this [of "n' - n"] assms(2) show ?thesis by simp
qed

lemma syntax_error_for_any_fuel:
  assumes "parse_json s = Inl SyntaxError"
  shows "\<not> (\<exists>v r. p_value n (skip_ws s) = Inr (v, r) \<and> skip_ws r = [])"
proof
  assume "\<exists>v r. p_value n (skip_ws s) = Inr (v, r) \<and> skip_ws r = []"
  then obtain v r where ok: "p_value n (skip_ws s) = Inr (v, r)" "skip_ws r = []" by auto
  let ?m = "2 * length s + 1"
  have "p_value ?m (skip_ws s) = Inr (v, r)"
  proof (cases "n \<le> ?m")
    case True
    from fuel_irrelevant [OF _ True, of "skip_ws s"] ok(1) show ?thesis by simp
  next
    case False
    have "p_value ?m (skip_ws s) \<noteq> Inl OutOfFuel"
      using assms by (auto simp: parse_json_def split: sum.splits)
    from fuel_irrelevant [OF this, of n] False ok(1) show ?thesis by simp
  qed
  then show False using assms ok(2) by (simp add: parse_json_def)
qed

lemma skip_ws_length: "length (skip_ws s) \<le> length s"
  by (induction s) auto

lemma skip_ws_Cons_length: "skip_ws s = d # ds \<Longrightarrow> length ds < length s"
  using skip_ws_length [of s] by simp

lemma p_chars_length: "p_chars s = Some (k, r) \<Longrightarrow> length r \<le> length s"
proof (induction s arbitrary: k r rule: p_chars.induct)
  case 1
  then show ?case by simp
next
  case (2 c cs)
  show ?case
  proof (cases "c = dquote")
    case True
    then show ?thesis using "2.prems" by simp
  next
    case nq: False
    show ?thesis
    proof (cases "c = backslash")
      case True
      show ?thesis
      proof (cases cs)
        case Nil
        then show ?thesis using "2.prems" nq True by simp
      next
        case (Cons e t)
        show ?thesis
        proof (cases "e = CHR ''u''")
          case u: True
          from "2.prems" nq True Cons u obtain h1 h2 h3 h4 t1 t2 t3 t' w us where
            t: "t = h1 # t1" "t1 = h2 # t2" "t2 = h3 # t3" "t3 = h4 # t'"
            and w: "hex4 h1 h2 h3 h4 = Some w"
            and rec: "p_chars t' = Some (us, r)"
            by (auto split: list.splits option.splits)
          from "2.IH"(1) [OF nq True Cons u t w rec] show ?thesis
            using Cons t by simp
        next
          case nu: False
          from "2.prems" nq True Cons nu obtain w us where
            w: "simple_escape e = Some w" and rec: "p_chars t = Some (us, r)"
            by (auto split: option.splits)
          from "2.IH"(2) [OF nq True Cons nu w rec] show ?thesis
            using Cons by simp
        qed
      qed
    next
      case nb: False
      from "2.prems" nq nb have ctl: "\<not> (of_char c :: nat) < 0x20"
        by (auto split: if_splits)
      with "2.prems" nq nb obtain us where rec: "p_chars cs = Some (us, r)"
        by auto
      from "2.IH"(3) [OF nq nb ctl rec] show ?thesis by simp
    qed
  qed
qed

lemma p_frac_length: "p_frac s = Some (f, r) \<Longrightarrow> length r \<le> length s"
  using length_dropWhile_le [of is_digit "tl s"]
  by (cases s) (auto simp: p_frac_def split: if_splits)

lemma p_exp_length: "p_exp s = Some (f, r) \<Longrightarrow> length r \<le> length s"
proof (cases s)
  case Nil
  then show "p_exp s = Some (f, r) \<Longrightarrow> length r \<le> length s" by (simp add: p_exp_def)
next
  case (Cons c t)
  assume a: "p_exp s = Some (f, r)"
  show "length r \<le> length s"
  proof (cases "c = CHR ''e'' \<or> c = CHR ''E''")
    case True
    then obtain k where "r = dropWhile is_digit (drop k t)"
      using a Cons by (auto simp: p_exp_def Let_def split: if_splits)
    then have "length r \<le> length (drop k t)" by (simp only: length_dropWhile_le)
    then show ?thesis using Cons by simp
  next
    case False
    then show ?thesis using a Cons by (auto simp: p_exp_def)
  qed
qed

lemma p_number_length:
  assumes "p_number s = Some (j, r)"
  shows "length r \<le> length s"
proof -
  let ?s1 = "if s \<noteq> [] \<and> hd s = CHR ''-'' then tl s else s"
  from assms obtain fr s2 ex where
    fr: "p_frac (dropWhile is_digit ?s1) = Some (fr, s2)" and ex: "p_exp s2 = Some (ex, r)"
    by (auto simp: p_number_def Let_def split: if_splits option.splits)
  have "length r \<le> length s2" using p_exp_length [OF ex] .
  also have "\<dots> \<le> length (dropWhile is_digit ?s1)" using p_frac_length [OF fr] .
  also have "\<dots> \<le> length ?s1" by (rule length_dropWhile_le)
  also have "\<dots> \<le> length s" by simp
  finally show ?thesis .
qed

lemma rest_not_longer:
  "p_value n s = Inr (v, r) \<Longrightarrow> length r \<le> length s"
  "p_elements n s = Inr (vs, r) \<Longrightarrow> length r \<le> length s"
  "p_members n s = Inr (ms, r) \<Longrightarrow> length r \<le> length s"
proof (induction n s and n s and n s arbitrary: v r and vs r and ms r
    rule: p_value_p_elements_p_members.induct)
  case (3 n c cs)
  show ?case
  proof (cases "c = CHR ''[''")
    case True
    then obtain d ds where d: "skip_ws cs = d # ds"
      using "3.prems" by (cases "skip_ws cs") auto
    show ?thesis
    proof (cases "d = CHR '']''")
      case True
      then show ?thesis using "3.prems" \<open>c = CHR ''[''\<close> d skip_ws_Cons_length [OF d] by auto
    next
      case False
      with "3.prems" True d obtain vs where "p_elements n (d # ds) = Inr (vs, r)"
        by (auto split: sum.splits)
      from "3.IH"(1) [OF True d False this] show ?thesis
        using skip_ws_Cons_length [OF d] by simp
    qed
  next
    case notarr: False
    show ?thesis
    proof (cases "c = CHR ''{''")
      case True
      then obtain d ds where d: "skip_ws cs = d # ds"
        using "3.prems" notarr by (cases "skip_ws cs") auto
      show ?thesis
      proof (cases "d = CHR ''}''")
        case True
        then show ?thesis using "3.prems" notarr \<open>c = CHR ''{''\<close> d skip_ws_Cons_length [OF d] by auto
      next
        case False
        with "3.prems" notarr True d obtain ms where "p_members n (d # ds) = Inr (ms, r)"
          by (auto split: sum.splits)
        from "3.IH"(2) [OF notarr True d False this] show ?thesis
          using skip_ws_Cons_length [OF d] by simp
      qed
    next
      case notobj: False
      show ?thesis
      proof (cases "c = dquote")
        case True
        with "3.prems" notarr notobj obtain us where "p_chars cs = Some (us, r)"
          by (auto simp: lift_syntax_def split: option.splits)
        from p_chars_length [OF this] show ?thesis by simp
      next
        case False
        from "3.prems" notarr notobj False
        consider "r = drop 4 (c # cs)" | "r = drop 5 (c # cs)"
          | j where "p_number (c # cs) = Some (j, r)"
          by (auto simp: lift_syntax_def split: if_splits option.splits)
        then show ?thesis
        proof cases
          case 3
          from p_number_length [OF this] show ?thesis .
        qed simp_all
      qed
    qed
  qed
next
  case (5 n s)
  from "5.prems" obtain v r1 where v: "p_value n s = Inr (v, r1)"
    by (auto split: sum.splits)
  note l1 = "5.IH"(1) [OF v]
  from "5.prems" v obtain d ds where d: "skip_ws r1 = d # ds"
    by (cases "skip_ws r1") auto
  show ?case
  proof (cases "d = CHR '']''")
    case True
    then show ?thesis using "5.prems" v d l1 skip_ws_Cons_length [OF d] by auto
  next
    case False
    with "5.prems" v d have comma: "d = CHR '',''" by (auto split: if_splits)
    with "5.prems" v d False obtain vs' where rec: "p_elements n (skip_ws ds) = Inr (vs', r)"
      by (auto split: sum.splits)
    from "5.IH"(2) [OF v refl d False comma rec] show ?thesis
      using l1 skip_ws_Cons_length [OF d] skip_ws_length [of ds] by simp
  qed
next
  case (8 n q s)
  from "8.prems" have q: "\<not> q \<noteq> dquote" by (auto split: if_splits)
  with "8.prems" obtain k r0 where k: "p_chars s = Some (k, r0)"
    by (auto split: option.splits)
  from "8.prems" q k obtain col r1 where col: "skip_ws r0 = col # r1"
    by (cases "skip_ws r0") auto
  from "8.prems" q k col have c: "\<not> col \<noteq> CHR '':''" by (auto split: if_splits)
  with "8.prems" q k col obtain v r2 where v: "p_value n (skip_ws r1) = Inr (v, r2)"
    by (auto split: sum.splits)
  note l1 = "8.IH"(1) [OF q k refl col c v]
  from "8.prems" q k col c v obtain d ds where d: "skip_ws r2 = d # ds"
    by (cases "skip_ws r2") auto
  have base: "length ds < length s"
    using l1 skip_ws_Cons_length [OF d] skip_ws_length [of r1] skip_ws_Cons_length [OF col]
      p_chars_length [OF k] by simp
  show ?case
  proof (cases "d = CHR ''}''")
    case True
    then show ?thesis using "8.prems" q k col c v d base by auto
  next
    case False
    with "8.prems" q k col c v d have comma: "d = CHR '',''" by (auto split: if_splits)
    with "8.prems" q k col c v d False obtain ms' where
      rec: "p_members n (skip_ws ds) = Inr (ms', r)"
      by (auto split: sum.splits)
    from "8.IH"(2) [OF q k refl col c v refl d False comma rec] show ?thesis
      using base skip_ws_length [of ds] by simp
  qed
qed simp_all

lemma enough_fuel:
  "2 * length s < n \<Longrightarrow> p_value n s \<noteq> Inl OutOfFuel"
  "2 * length s + 1 < n \<Longrightarrow> p_elements n s \<noteq> Inl OutOfFuel"
  "2 * length s + 1 < n \<Longrightarrow> p_members n s \<noteq> Inl OutOfFuel"
proof (induction n s and n s and n s rule: p_value_p_elements_p_members.induct)
  case (3 n c cs)
  show ?case
  proof (cases "c = CHR ''[''")
    case True
    show ?thesis
    proof (cases "skip_ws cs")
      case Nil
      then show ?thesis using True by simp
    next
      case (Cons d ds)
      show ?thesis
      proof (cases "d = CHR '']''")
        case True
        then show ?thesis using \<open>c = CHR ''[''\<close> Cons by simp
      next
        case False
        have "2 * length (d # ds) + 1 < n"
          using "3.prems" skip_ws_Cons_length [OF Cons] by simp
        from "3.IH"(1) [OF True Cons False this] show ?thesis
          using True Cons False by (auto split: sum.splits)
      qed
    qed
  next
    case notarr: False
    show ?thesis
    proof (cases "c = CHR ''{''")
      case True
      show ?thesis
      proof (cases "skip_ws cs")
        case Nil
        then show ?thesis using True notarr by simp
      next
        case (Cons d ds)
        show ?thesis
        proof (cases "d = CHR ''}''")
          case True
          then show ?thesis using \<open>c = CHR ''{''\<close> notarr Cons by simp
        next
          case False
          have "2 * length (d # ds) + 1 < n"
            using "3.prems" skip_ws_Cons_length [OF Cons] by simp
          from "3.IH"(2) [OF notarr True Cons False this] show ?thesis
            using notarr True Cons False by (auto split: sum.splits)
        qed
      qed
    next
      case False
      then show ?thesis using notarr by (auto simp: lift_syntax_def split: option.splits)
    qed
  qed
next
  case (5 n s)
  have v: "p_value n s \<noteq> Inl OutOfFuel" using "5.IH"(1) "5.prems" by simp
  show ?case
  proof (cases "p_value n s")
    case (Inl e)
    then show ?thesis using v by auto
  next
    case (Inr vr)
    obtain v r where vr: "vr = (v, r)" by (cases vr) auto
    note l1 = rest_not_longer(1) [OF Inr [unfolded vr]]
    show ?thesis
    proof (cases "skip_ws r")
      case Nil
      then show ?thesis using Inr vr by simp
    next
      case (Cons d ds)
      show ?thesis
      proof (cases "d \<noteq> CHR '']'' \<and> d = CHR '',''")
        case True
        have "2 * length (skip_ws ds) + 1 < n"
          using "5.prems" l1 skip_ws_Cons_length [OF Cons] skip_ws_length [of ds] by simp
        from "5.IH"(2) [OF Inr vr [symmetric] Cons _ _ this] True
        show ?thesis using Inr vr Cons by (auto split: sum.splits)
      next
        case False
        then show ?thesis using Inr vr Cons by auto
      qed
    qed
  qed
next
  case (8 n q s)
  show ?case
  proof (cases "q \<noteq> dquote")
    case True
    then show ?thesis by simp
  next
    case q: False
    show ?thesis
    proof (cases "p_chars s")
      case None
      then show ?thesis using q by simp
    next
      case (Some kr)
      obtain k r where kr: "kr = (k, r)" by (cases kr) auto
      note lk = p_chars_length [OF Some [unfolded kr]]
      show ?thesis
      proof (cases "skip_ws r")
        case Nil
        then show ?thesis using q Some kr by simp
      next
        case (Cons col r1)
        show ?thesis
        proof (cases "col \<noteq> CHR '':''")
          case True
          then show ?thesis using q Some kr Cons by simp
        next
          case col: False
          have f1: "2 * length (skip_ws r1) < n"
            using "8.prems" lk skip_ws_Cons_length [OF Cons] skip_ws_length [of r1] by simp
          note v = "8.IH"(1) [OF q Some kr [symmetric] Cons col f1]
          show ?thesis
          proof (cases "p_value n (skip_ws r1)")
            case (Inl e)
            then show ?thesis using v q Some kr Cons col by auto
          next
            case (Inr vr)
            obtain v r2 where vr: "vr = (v, r2)" by (cases vr) auto
            note l2 = rest_not_longer(1) [OF Inr [unfolded vr]]
            show ?thesis
            proof (cases "skip_ws r2")
              case Nil
              then show ?thesis using q Some kr Cons col Inr vr by simp
            next
              case c2: (Cons d ds)
              show ?thesis
              proof (cases "d \<noteq> CHR ''}'' \<and> d = CHR '',''")
                case True
                have "2 * length (skip_ws ds) + 1 < n"
                  using "8.prems" lk l2 skip_ws_Cons_length [OF Cons] skip_ws_length [of r1]
                    skip_ws_Cons_length [OF c2] skip_ws_length [of ds] by simp
                from "8.IH"(2) [OF q Some kr [symmetric] Cons col Inr vr [symmetric] c2 _ _ this] True
                show ?thesis using q Some kr Cons col Inr vr c2 by (auto split: sum.splits)
              next
                case False
                then show ?thesis using q Some kr Cons col Inr vr c2 by auto
              qed
            qed
          qed
        qed
      qed
    qed
  qed
qed simp_all

theorem parse_json_total: "parse_json s \<noteq> Inl OutOfFuel"
proof -
  have "2 * length (skip_ws s) < 2 * length s + 1" using skip_ws_length [of s] by simp
  from enough_fuel(1) [OF this] show ?thesis
    by (auto simp: parse_json_def split: sum.splits)
qed

subsection \<open>Digits\<close>

lemma of_char_bound: "(of_char c :: nat) < 256"
  by (cases c) (simp add: of_char_def)

lemma below_ten:
  "(k::nat) < 10 \<Longrightarrow> k = 0 \<or> k = 1 \<or> k = 2 \<or> k = 3 \<or> k = 4 \<or> k = 5 \<or> k = 6 \<or> k = 7 \<or> k = 8 \<or> k = 9"
  by arith

lemma below_sixteen:
  "(k::nat) < 16 \<Longrightarrow> k = 0 \<or> k = 1 \<or> k = 2 \<or> k = 3 \<or> k = 4 \<or> k = 5 \<or> k = 6 \<or> k = 7 \<or> k = 8 \<or> k = 9
     \<or> k = 10 \<or> k = 11 \<or> k = 12 \<or> k = 13 \<or> k = 14 \<or> k = 15"
  by arith

lemma digit_char_props:
  "is_digit (digit_char n)"
  "(of_char (digit_char n) :: nat) - 48 = n mod 10"
  "digit_char n = CHR ''0'' \<longleftrightarrow> n mod 10 = 0"
  "digit_char n \<noteq> CHR 0x0A"
  using below_ten [of "n mod 10"]
  by (auto simp: digit_char_def is_digit_def)

lemma hex_digit_value: "n < 16 \<Longrightarrow> hex_value (hex_digit n) = Some n"
  using below_sixteen [of n] by (auto simp: hex_digit_def hex_value_def is_digit_def)


subsection \<open>Integers are read back\<close>

lemma nat_repr_digits: "\<forall>c\<in>set (nat_repr n). is_digit c"
proof (induction n rule: nat_repr.induct)
  case (1 n)
  show ?case
    using 1 by (subst nat_repr.simps) (auto simp: digit_char_props)
qed

lemma nat_repr_nonempty: "nat_repr n \<noteq> []"
  by (subst nat_repr.simps) simp

lemma nat_repr_value: "nat_of_digits (nat_repr n) = n"
proof (induction n rule: nat_repr.induct)
  case (1 n)
  show ?case
  proof (cases "n < 10")
    case True
    then show ?thesis
      by (subst nat_repr.simps) (simp add: nat_of_digits_def digit_char_props)
  next
    case False
    then have "nat_of_digits (nat_repr (n div 10)) = n div 10" using 1 by simp
    then show ?thesis using False
      by (subst nat_repr.simps) (simp add: nat_of_digits_def digit_char_props)
  qed
qed

lemma nat_repr_leading: "hd (nat_repr n) = CHR ''0'' \<Longrightarrow> n = 0"
proof (induction n rule: nat_repr.induct)
  case (1 n)
  show ?case
  proof (cases "n < 10")
    case True
    then show ?thesis using "1.prems"
      by (subst (asm) nat_repr.simps) (simp add: digit_char_props)
  next
    case False
    then have "hd (nat_repr n) = hd (nat_repr (n div 10))"
      by (subst nat_repr.simps) (simp add: nat_repr_nonempty)
    then have "n div 10 = 0" using 1 False by simp
    then show ?thesis using False by simp
  qed
qed

lemma nat_repr_zero: "nat_repr 0 = ''0''"
  by (subst nat_repr.simps) (simp add: digit_char_def)

lemma span_digits:
  assumes "\<forall>c\<in>set ds. is_digit c" "number_end rest"
  shows "takeWhile is_digit (ds @ rest) = ds" "dropWhile is_digit (ds @ rest) = rest"
proof -
  have r: "takeWhile is_digit rest = []" "dropWhile is_digit rest = rest"
    using assms(2) by (cases rest; simp add: number_end_def)+
  show "takeWhile is_digit (ds @ rest) = ds" using assms(1) r
    by simp
  show "dropWhile is_digit (ds @ rest) = rest" using assms(1) r
    by simp
qed

lemma number_end_tail:
  assumes "number_end rest"
  shows "p_frac rest = Some ([], rest)" "p_exp rest = Some ([], rest)"
  using assms by (cases rest; simp add: number_end_def p_frac_def p_exp_def)+

lemma p_number_nat:
  assumes "number_end rest"
  shows "p_number (nat_repr n @ rest) = Some (JInt (int n), rest)"
proof -
  have ne: "nat_repr n @ rest \<noteq> []" using nat_repr_nonempty [of n] by simp
  have hd_eq: "hd (nat_repr n @ rest) = hd (nat_repr n)" using nat_repr_nonempty [of n] by simp
  have "is_digit (hd (nat_repr n))" using nat_repr_digits [of n] nat_repr_nonempty [of n] by simp
  then have sign: "hd (nat_repr n @ rest) \<noteq> CHR ''-''" unfolding hd_eq by (auto simp: is_digit_def)
  have lead: "\<not> (hd (nat_repr n) = CHR ''0'' \<and> 1 < length (nat_repr n))"
    using nat_repr_leading [of n] nat_repr_zero by auto
  note sp = span_digits [OF nat_repr_digits assms, of n]
  show ?thesis
    unfolding p_number_def Let_def
    by (simp only: sign sp lead nat_repr_nonempty number_end_tail [OF assms] nat_repr_value
        simp_thms if_False if_True option.case prod.case)
qed

lemma p_number_neg:
  assumes "number_end rest"
  shows "p_number (CHR ''-'' # nat_repr n @ rest) = Some (JInt (- int n), rest)"
proof -
  have lead: "\<not> (hd (nat_repr n) = CHR ''0'' \<and> 1 < length (nat_repr n))"
    using nat_repr_leading [of n] nat_repr_zero by auto
  note sp = span_digits [OF nat_repr_digits assms, of n]
  show ?thesis
    unfolding p_number_def Let_def
    by (simp only: list.sel sp lead nat_repr_nonempty number_end_tail [OF assms] nat_repr_value
        simp_thms if_False if_True option.case prod.case list.distinct)
qed

lemma p_number_int:
  assumes "number_end rest"
  shows "p_number (int_repr i @ rest) = Some (JInt i, rest)"
  using p_number_nat [OF assms, of "nat i"] p_number_neg [OF assms, of "nat (- i)"]
  by (simp add: int_repr_def)

lemma int_repr_head:
  "int_repr i \<noteq> []" "is_digit (hd (int_repr i)) \<or> hd (int_repr i) = CHR ''-''"
  using nat_repr_nonempty [of "nat i"] nat_repr_digits [of "nat i"]
  by (auto simp: int_repr_def)

subsection \<open>Strings are read back\<close>

lemma hex_value_zero: "hex_value (CHR ''0'') = Some 0"
  by (simp add: hex_value_def is_digit_def)

lemma hex4_byte:
  assumes "n < 256"
  shows "hex4 (CHR ''0'') (CHR ''0'') (hex_digit (n div 16)) (hex_digit (n mod 16)) = Some n"
proof -
  have "n div 16 < 16" using assms by simp
  then show ?thesis
    by (simp add: hex4_def hex_value_zero hex_digit_value)
qed

lemma p_chars_escape:
  "p_chars (escape_char c @ t) = map_option (\<lambda>(us, r). (of_char c # us, r)) (p_chars t)"
proof -
  consider (short) "c = backslash \<or> c = dquote \<or> c = CHR 0x08 \<or> c = CHR 0x0C \<or> c = CHR 0x0A
        \<or> c = CHR 0x0D \<or> c = CHR 0x09"
    | (hex) "\<not> (c = backslash \<or> c = dquote \<or> c = CHR 0x08 \<or> c = CHR 0x0C \<or> c = CHR 0x0A
        \<or> c = CHR 0x0D \<or> c = CHR 0x09)" "(of_char c :: nat) < 0x20 \<or> 0x7E < (of_char c :: nat)"
    | (plain) "\<not> (c = backslash \<or> c = dquote \<or> c = CHR 0x08 \<or> c = CHR 0x0C \<or> c = CHR 0x0A
        \<or> c = CHR 0x0D \<or> c = CHR 0x09)" "\<not> ((of_char c :: nat) < 0x20 \<or> 0x7E < (of_char c :: nat))"
    by blast
  then show ?thesis
  proof cases
    case short
    then show ?thesis
      by (elim disjE) (simp_all add: escape_char_def simple_escape_def dquote_def backslash_def)
  next
    case hex
    then show ?thesis
      using hex4_byte [OF of_char_bound, of c]
      by (simp add: escape_char_def dquote_def backslash_def)
  next
    case plain
    then show ?thesis
      by (simp add: escape_char_def dquote_def backslash_def)
  qed
qed

lemma p_chars_escaped:
  "p_chars (concat (map escape_char s) @ dquote # rest) = Some (map of_char s, rest)"
  by (induction s) (simp_all add: p_chars_escape)

subsection \<open>Encoded values are read back\<close>

lemma is_digit_start: "is_digit c \<Longrightarrow> value_start c"
  by (auto simp: is_digit_def value_start_def is_ws_def)

lemma dumps_head:
  assumes "dumps v = Inr s"
  shows "s \<noteq> [] \<and> value_start (hd s)"
proof (cases v)
  case (PInt i)
  then show ?thesis using assms int_repr_head [of i] is_digit_start [of "hd (int_repr i)"]
    by (auto simp: value_start_def is_ws_def)
qed (use assms in \<open>auto simp: value_start_def is_ws_def encode_str_def dquote_def split: sum.splits if_splits\<close>)

lemma skip_ws_start: "s \<noteq> [] \<Longrightarrow> value_start (hd s) \<Longrightarrow> skip_ws (s @ t) = s @ t"
  by (cases s) (simp_all add: value_start_def)

lemma p_value_number:
  assumes "s \<noteq> []" "is_digit (hd s) \<or> hd s = CHR ''-''"
  shows "p_value (Suc n) (s @ rest) = lift_syntax (p_number (s @ rest))"
proof -
  obtain c cs where s: "s = c # cs" using assms(1) by (cases s) auto
  have "c \<noteq> CHR ''[''" "c \<noteq> CHR ''{''" "c \<noteq> dquote" "c \<noteq> CHR ''t''" "c \<noteq> CHR ''f''" "c \<noteq> CHR ''n''"
    using assms(2) by (auto simp: s is_digit_def dquote_def)
  then show ?thesis by (simp add: s)
qed

lemma p_value_int:
  assumes "number_end rest"
  shows "p_value (Suc n) (int_repr i @ rest) = Inr (JInt i, rest)"
  by (simp add: p_value_number int_repr_head p_number_int [OF assms] lift_syntax_def)

lemma p_value_str:
  "p_value (Suc n) (encode_str s @ rest) = Inr (JString (map of_char s), rest)"
  using p_chars_escaped [of s rest]
  by (simp add: encode_str_def dquote_def lift_syntax_def)

lemma number_end_sep: "number_end (CHR '','' # t)" "number_end (CHR '']'' # t)" "number_end (CHR ''}'' # t)"
  by (simp_all add: number_end_def is_digit_def)

lemma dumps_items_head:
  assumes "dumps_items xs = Inr parts" "xs \<noteq> []"
  shows "join sep parts \<noteq> [] \<and> value_start (hd (join sep parts))"
proof -
  obtain x xs' where xs: "xs = x # xs'" using assms(2) by (cases xs) auto
  then obtain s ss where s: "dumps x = Inr s" "parts = s # ss"
    using assms(1) by (auto split: sum.splits)
  have "s \<noteq> []" "value_start (hd s)" using dumps_head [OF s(1)] by auto
  then show ?thesis unfolding s(2) by (cases ss) auto
qed

lemma dumps_pairs_head:
  assumes "dumps_pairs kvs = Inr parts" "kvs \<noteq> []"
  shows "\<exists>t. join sep parts = dquote # t"
proof -
  obtain kv kvs' where "kvs = kv # kvs'" using assms(2) by (cases kvs) auto
  then obtain s ss where s: "parts = (encode_str (fst kv) @ '': '' @ s) # ss"
    using assms(1) by (auto split: sum.splits)
  show ?thesis unfolding s by (cases ss) (auto simp: encode_str_def)
qed

lemma parse_dumps:
  "dumps v = Inr s \<Longrightarrow> length s \<le> n \<Longrightarrow> number_end rest \<Longrightarrow>
     \<exists>j. json_of v = Some j \<and> p_value n (s @ rest) = Inr (j, rest)"
  "dumps_items xs = Inr parts \<Longrightarrow> xs \<noteq> [] \<Longrightarrow> length (join '', '' parts) < n \<Longrightarrow>
     \<exists>js. json_of_items xs = Some js \<and>
       p_elements n (join '', '' parts @ CHR '']'' # rest) = Inr (js, rest)"
  "dumps_pairs kvs = Inr parts \<Longrightarrow> kvs \<noteq> [] \<Longrightarrow> length (join '', '' parts) < n \<Longrightarrow>
     \<exists>ms. json_of_pairs kvs = Some ms \<and>
       p_members n (join '', '' parts @ CHR ''}'' # rest) = Inr (ms, rest)"
proof (induction v and xs and kvs arbitrary: s n rest and parts n rest and parts n rest
    rule: dumps_dumps_items_dumps_pairs.induct)
  case 1
  then obtain k where "n = Suc k" by (cases n) auto
  then show ?case using 1 by (auto simp: dquote_def)
next
  case (2 b)
  then obtain k where "n = Suc k" by (cases n) (auto split: if_splits)
  then show ?case using 2 by (auto simp: dquote_def split: if_splits)
next
  case (3 i)
  then obtain k where "n = Suc k" using int_repr_head(1) [of i] by (cases n) auto
  then show ?case using 3 by (auto simp: p_value_int)
next
  case (4 t)
  then obtain k where "n = Suc k" by (cases n) (auto simp: encode_str_def)
  then show ?case using 4 by (auto simp: p_value_str)
next
  case (5 xs)
  from "5.prems"(1) obtain parts where parts: "dumps_items xs = Inr parts"
    and s: "s = CHR ''['' # join '', '' parts @ '']''"
    by (auto split: sum.splits)
  from "5.prems"(2) s obtain k where n: "n = Suc k" and k: "length (join '', '' parts) < k"
    by (cases n) auto
  show ?case
  proof (cases "xs = []")
    case True
    then show ?thesis using parts by (simp add: s n is_ws_def)
  next
    case False
    from "5.IH" [OF parts False k, of rest]
    obtain js where js: "json_of_items xs = Some js"
      "p_elements k (join '', '' parts @ CHR '']'' # rest) = Inr (js, rest)" by auto
    from dumps_items_head [OF parts False, of "'', ''"]
    obtain d ds where d: "join '', '' parts = d # ds" "value_start d"
      by (cases "join '', '' parts") auto
    have "skip_ws (join '', '' parts @ CHR '']'' # rest) = join '', '' parts @ CHR '']'' # rest"
      using d by (simp add: value_start_def)
    then show ?thesis using js d by (simp add: s n value_start_def)
  qed
next
  case (6 kvs)
  from "6.prems"(1) obtain parts where parts: "dumps_pairs kvs = Inr parts"
    and s: "s = CHR ''{'' # join '', '' parts @ ''}''"
    by (auto split: sum.splits)
  from "6.prems"(2) s obtain k where n: "n = Suc k" and k: "length (join '', '' parts) < k"
    by (cases n) auto
  show ?case
  proof (cases "kvs = []")
    case True
    then show ?thesis using parts by (simp add: s n is_ws_def)
  next
    case False
    from "6.IH" [OF parts False k, of rest]
    obtain ms where ms: "json_of_pairs kvs = Some ms"
      "p_members k (join '', '' parts @ CHR ''}'' # rest) = Inr (ms, rest)" by auto
    from dumps_pairs_head [OF parts False, of "'', ''"]
    obtain t where d: "join '', '' parts = dquote # t" by auto
    have "skip_ws (join '', '' parts @ CHR ''}'' # rest) = join '', '' parts @ CHR ''}'' # rest"
      using d by (simp add: dquote_def is_ws_def)
    then show ?thesis using ms d by (simp add: s n dquote_def)
  qed
next
  case 7
  then show ?case by simp
next
  case 8
  then show ?case by simp
next
  case (9 x xs)
  from "9.prems"(1) obtain t ts where t: "dumps x = Inr t" and ts: "dumps_items xs = Inr ts"
    and parts: "parts = t # ts"
    by (auto split: sum.splits)
  have t_ne: "t \<noteq> []" using dumps_head [OF t] by simp
  show ?case
  proof (cases "xs = []")
    case True
    then have ts_nil: "ts = []" using ts by simp
    from "9.prems"(3) obtain k where n: "n = Suc k" and k: "length t \<le> k"
      by (cases n) (auto simp: parts ts_nil)
    from "9.IH"(1) [OF t k number_end_sep(2), of rest]
    obtain j where j: "json_of x = Some j" "p_value k (t @ CHR '']'' # rest) = Inr (j, rest')"
      if "rest' = CHR '']'' # rest" for rest' by auto
    show ?thesis using j True by (simp add: parts ts_nil n is_ws_def)
  next
    case False
    from dumps_items_head [OF ts False, of "'', ''"]
    have hd_ts: "join '', '' ts \<noteq> []" "value_start (hd (join '', '' ts))" by auto
    then obtain u us where us: "ts = u # us" by (cases ts) auto
    have joined: "join '', '' parts = t @ '', '' @ join '', '' ts"
      by (simp add: parts us)
    from "9.prems"(3) obtain k where n: "n = Suc k" and k: "length t \<le> k" "length (join '', '' ts) < k"
      by (cases n) (auto simp: joined)
    let ?tail = "join '', '' ts @ CHR '']'' # rest"
    from "9.IH"(1) [OF t k(1) number_end_sep(1), of "CHR '' '' # ?tail"]
    obtain j where j: "json_of x = Some j"
      "p_value k (t @ CHR '','' # CHR '' '' # ?tail) = Inr (j, CHR '','' # CHR '' '' # ?tail)" by auto
    from "9.IH"(2) [OF t ts False k(2), of rest]
    obtain js where js: "json_of_items xs = Some js" "p_elements k ?tail = Inr (js, rest)" by auto
    have skip: "skip_ws ?tail = ?tail" using skip_ws_start [OF hd_ts] by simp
    show ?thesis using j js skip by (simp add: joined n is_ws_def)
  qed
next
  case 10
  then show ?case by simp
next
  case (11 kv kvs)
  from "11.prems"(1) obtain t ts where t: "dumps (snd kv) = Inr t" and ts: "dumps_pairs kvs = Inr ts"
    and parts: "parts = (encode_str (fst kv) @ '': '' @ t) # ts"
    by (auto split: sum.splits)
  have t_hd: "t \<noteq> []" "value_start (hd t)" using dumps_head [OF t] by auto
  have key: "p_chars (concat (map escape_char (fst kv)) @ dquote # r) = Some (map of_char (fst kv), r)" for r
    by (rule p_chars_escaped)
  have skip_t: "skip_ws (t @ r) = t @ r" for r using skip_ws_start [OF t_hd] by simp
  show ?case
  proof (cases "kvs = []")
    case True
    then have ts_nil: "ts = []" using ts by simp
    from "11.prems"(3) obtain k where n: "n = Suc k" and k: "length t \<le> k"
      by (cases n) (auto simp: parts ts_nil)
    from "11.IH"(1) [OF t k number_end_sep(3), of rest]
    obtain j where j: "json_of (snd kv) = Some j" "p_value k (t @ CHR ''}'' # rest) = Inr (j, CHR ''}'' # rest)"
      by auto
    show ?thesis using j True key skip_t
      by (simp add: parts ts_nil n is_ws_def encode_str_def dquote_def)
  next
    case False
    from dumps_pairs_head [OF ts False, of "'', ''"]
    obtain w where w: "join '', '' ts = dquote # w" by auto
    then obtain u us where us: "ts = u # us" by (cases ts) auto
    have joined: "join '', '' parts = encode_str (fst kv) @ '': '' @ t @ '', '' @ join '', '' ts"
      by (simp add: parts us)
    from "11.prems"(3) obtain k where n: "n = Suc k" and k: "length t \<le> k" "length (join '', '' ts) < k"
      by (cases n) (auto simp: joined)
    let ?tail = "join '', '' ts @ CHR ''}'' # rest"
    from "11.IH"(1) [OF t k(1) number_end_sep(1), of "CHR '' '' # ?tail"]
    obtain j where j: "json_of (snd kv) = Some j"
      "p_value k (t @ CHR '','' # CHR '' '' # ?tail) = Inr (j, CHR '','' # CHR '' '' # ?tail)" by auto
    from "11.IH"(2) [OF t ts False k(2), of rest]
    obtain ms where ms: "json_of_pairs kvs = Some ms" "p_members k ?tail = Inr (ms, rest)" by auto
    have skip: "skip_ws ?tail = ?tail" by (simp add: w dquote_def is_ws_def)
    show ?thesis using j ms skip key skip_t
      by (simp add: joined n is_ws_def encode_str_def dquote_def)
  qed
qed

lemma parse_json_dumps:
  assumes "dumps v = Inr s"
  shows "\<exists>j. json_of v = Some j \<and> parse_json s = Inr j"
proof -
  have nil: "number_end []" by (simp add: number_end_def)
  from parse_dumps(1) [OF assms _ nil, of "2 * length s + 1"]
  obtain j where j: "json_of v = Some j" "p_value (2 * length s + 1) s = Inr (j, [])" by auto
  have "skip_ws s = s" using skip_ws_start [of s "[]"] dumps_head [OF assms] by simp
  then show ?thesis using j by (simp add: parse_json_def)
qed



subsection \<open>The encoder writes no newline\<close>

lemma line_count_append [simp]: "line_count (a @ b) = line_count a + line_count b"
  by (simp add: line_count_def)


lemma line_count_Nil [simp]: "line_count [] = 0"
  by (simp add: line_count_def)








subsection \<open>What a successful run has printed\<close>

lemma export_loop_success:
  "export_loop eq opts xs out = (out', None) \<Longrightarrow>
     \<exists>texts. map serialize xs = map Inr texts \<and>
       out' = out @ concat (map2 (printed eq opts) xs texts)"
proof (induction xs arbitrary: out)
  case Nil
  then show ?case by simp
next
  case (Cons x xs)
  from Cons.prems obtain final where final: "last_item opts = Inr final"
    by (auto split: sum.splits)
  then have final_eq: "final = last opts" by (cases opts) auto
  from Cons.prems final obtain t where t: "serialize x = Inr t"
    by (auto split: sum.splits if_splits)
  from Cons.prems final t have "export_loop eq opts xs (out @ printed eq opts x t) = (out', None)"
    by (auto simp: printed_def final_eq split: if_splits)
  from Cons.IH [OF this] obtain texts where texts: "map serialize xs = map Inr texts"
    "out' = (out @ printed eq opts x t) @ concat (map2 (printed eq opts) xs texts)" by auto
  show ?case
    by (rule exI [of _ "t # texts"]) (simp add: t texts)
qed

lemma main_success:
  assumes "length argv = 2" "exec_script (argv ! 1) = Inr m" "BUILD_OPTIONS m = Sequence opts"
    and "status (main exec_script argv) = Exit 0"
  shows "\<exists>texts. map serialize opts = map Inr texts \<and>
     stdout (main exec_script argv) =
       CHR ''['' # concat (map2 (printed (obj_eq m) opts) opts texts) @ [CHR '']'', CHR 0x0A]"
proof -
  obtain out r where loop: "export_loop (obj_eq m) opts opts ''['' = (out, r)"
    by (cases "export_loop (obj_eq m) opts opts ''[''") auto
  with assms have r: "r = None" by (cases r) (auto simp: main_def)
  from export_loop_success [OF loop [unfolded r]] obtain texts where
    "map serialize opts = map Inr texts" "out = ''['' @ concat (map2 (printed (obj_eq m) opts) opts texts)"
    by auto
  then show ?thesis using assms loop r by (auto simp: main_def)
qed

lemma serialized_texts:
  assumes "map serialize opts = map Inr texts"
  shows "length texts = length opts" "i < length opts \<Longrightarrow> serialize (opts ! i) = Inr (texts ! i)"
proof -
  show len: "length texts = length opts" using assms by (metis length_map)
  show "serialize (opts ! i) = Inr (texts ! i)" if "i < length opts"
    using that len assms by (metis nth_map)
qed

lemma separators_join:
  assumes "length xs = length texts"
    and "xs \<noteq> [] \<Longrightarrow> eq (last xs) l" "\<forall>x\<in>set (butlast xs). \<not> eq x l"
  shows "concat (map2 (\<lambda>x t. t @ (if eq x l then [] else sep)) xs texts) = join sep texts"
  using assms
proof (induction xs texts rule: list_induct2)
  case Nil
  then show ?case by simp
next
  case (Cons x xs t ts)
  show ?case
  proof (cases xs)
    case Nil
    then show ?thesis using Cons by simp
  next
    case (Cons y ys)
    then obtain u us where ts: "ts = u # us" using \<open>length xs = length ts\<close> by (cases ts) auto
    have "concat (map2 (\<lambda>x t. t @ (if eq x l then [] else sep)) xs ts) = join sep ts"
      using Cons.IH Cons.prems Cons by simp
    moreover have "\<not> eq x l" using Cons.prems(2) Cons by simp
    ultimately show ?thesis by (simp add: ts)
  qed
qed

lemma printed_join:
  assumes "last_recognised eq opts" "length opts = length texts"
  shows "concat (map2 (printed eq opts) opts texts) = join [CHR '','', CHR 0x0A] texts"
proof -
  have "printed eq opts = (\<lambda>x t. t @ (if eq x (last opts) then [] else [CHR '','', CHR 0x0A]))"
    by (auto simp: printed_def fun_eq_iff)
  then show ?thesis
    using separators_join [OF assms(2), of eq "last opts" "[CHR '','', CHR 0x0A]"] assms(1)
    by (auto simp: last_recognised_def list_all_iff)
qed


lemma join_head:
  "texts \<noteq> [] \<Longrightarrow> hd texts \<noteq> [] \<Longrightarrow>
     join sep texts \<noteq> [] \<and> hd (join sep texts) = hd (hd texts)"
  by (cases texts; cases "tl texts") auto

lemma p_elements_lines:
  assumes "list_all2 (\<lambda>t j. t \<noteq> [] \<and> value_start (hd t) \<and>
      (\<forall>n rest. length t \<le> n \<longrightarrow> number_end rest \<longrightarrow> p_value n (t @ rest) = Inr (j, rest))) texts js"
    and "texts \<noteq> []" "length (join [CHR '','', CHR 0x0A] texts) < n"
  shows "p_elements n (join [CHR '','', CHR 0x0A] texts @ CHR '']'' # rest) = Inr (js, rest)"
  using assms
proof (induction texts js arbitrary: n rule: list_all2_induct)
  case Nil
  then show ?case by simp
next
  case (Cons t ts j js)
  from Cons.hyps(1) have t: "t \<noteq> []" "value_start (hd t)"
    and parse: "\<And>n rest. length t \<le> n \<Longrightarrow> number_end rest \<Longrightarrow> p_value n (t @ rest) = Inr (j, rest)"
    by auto
  show ?case
  proof (cases ts)
    case Nil
    then have js: "js = []" using Cons.hyps(2) by simp
    from Cons.prems(2) Nil obtain k where n: "n = Suc k" and k: "length t \<le> k"
      by (cases n) auto
    show ?thesis using parse [OF k number_end_sep(2), of rest]
      by (simp add: Nil js n is_ws_def)
  next
    case (Cons u us)
    let ?tail = "join [CHR '','', CHR 0x0A] ts @ CHR '']'' # rest"
    from Cons.prems(2) Cons obtain k where n: "n = Suc k" and k: "length t \<le> k"
      "length (join [CHR '','', CHR 0x0A] ts) < k"
      by (cases n) auto
    have ts_ne: "ts \<noteq> []" using Cons by simp
    from Cons.hyps(2) Cons have u: "u \<noteq> []" "value_start (hd u)"
      by (auto simp: list_all2_Cons1)
    then have "join [CHR '','', CHR 0x0A] ts \<noteq> []" "value_start (hd (join [CHR '','', CHR 0x0A] ts))"
      unfolding Cons by (cases us; simp)+
    then have skip: "skip_ws ?tail = ?tail" using skip_ws_start by simp
    have "p_elements k ?tail = Inr (js, rest)"
      using Cons.IH [OF ts_ne k(2)] .
    then show ?thesis
      using parse [OF k(1) number_end_sep(1), of "CHR 0x0A # ?tail"] skip
      by (simp add: Cons n is_ws_def)
  qed
qed

section \<open>The argument check\<close>

text \<open>
  C4.  When \<^verbatim>\<open>sys.argv\<close> does not hold exactly the program name and one argument, the
  process exits with code 1 and has written nothing to standard output.
\<close>

theorem wrong_argument_count:
  "length argv \<noteq> 2 \<Longrightarrow>
     stdout (main exec_script argv) = [] \<and> status (main exec_script argv) = Exit 1 \<and>
     exit_code (status (main exec_script argv)) = 1"
  by (simp add: main_def)

theorem wrong_argument_count_witness:
  "length [''featureLoader.py''] \<noteq> 2 \<and>
   main (script_with [enable_x]) [''featureLoader.py''] = \<lparr>stdout = [], status = Exit 1\<rparr> \<and>
   length [''featureLoader.py'', ''a.py'', ''b.py''] \<noteq> 2 \<and>
   main (script_with [enable_x]) [''featureLoader.py'', ''a.py'', ''b.py''] =
     \<lparr>stdout = [], status = Exit 1\<rparr>"
  using wrong_argument_count [of "[''featureLoader.py'']" "script_with [enable_x]"]
    wrong_argument_count [of "[''featureLoader.py'', ''a.py'', ''b.py'']" "script_with [enable_x]"]
  by simp

section \<open>Successful runs\<close>




text \<open>
  C8.  The scenario of two options: the records \<^verbatim>\<open>ENABLE_X\<close> (default true) and
  \<^verbatim>\<open>ENABLE_Y\<close> (default false) are printed as the array text of the scenario, the first
  record followed by a comma and a newline, the closing bracket by the newline of the
  last \<^verbatim>\<open>print\<close>, and the exit code is 0.
\<close>

theorem two_options_scenario:
  \<open>main (script_with [enable_x, enable_y]) one_argument =
     \<lparr>stdout = ''[{"name": "ENABLE_X", "default": true},\<newline>{"name": "ENABLE_Y", "default": false}]\<newline>'',
      status = Exit 0\<rparr> \<and>
   exit_code (status (main (script_with [enable_x, enable_y]) one_argument)) = 0\<close>
  by code_simp






section \<open>Failures after the opening bracket\<close>





section \<open>An element that equals the last one\<close>

text \<open>
  C1.  Line 19 recognises the last element by \<^verbatim>\<open>==\<close>, so an earlier element equal to
  the last one is printed without separator.  With the same object listed twice the run
  succeeds and the output is not a JSON text, let alone an array of two elements.
\<close>

theorem repeated_record_not_an_array:
  \<open>main (script_with [feature 1, feature 1]) one_argument =
     \<lparr>stdout = ''[{"name": "X"}{"name": "X"}]\<newline>'', status = Exit 0\<rparr> \<and>
   parse_json (stdout (main (script_with [feature 1, feature 1]) one_argument)) =
     Inl SyntaxError\<close>
  by code_simp

text \<open>
  C3.  With three records of which the first is the very object that comes last, the
  first record is followed directly by the second: there is no separator between them.
\<close>

theorem repeated_record_no_separator:
  \<open>stdout (main (script_with [feature 1, feature 2, feature 1]) one_argument) =
     ''[{"name": "X"}{"name": "X"},\<newline>{"name": "X"}]\<newline>''\<close>
  by code_simp

text \<open>
  The same happens without any object listed twice when the class of the records
  compares by fields: two entries with equal fields are printed without separator.
\<close>

theorem equal_records_no_separator:
  \<open>stdout (main (dataclass_script [feature 1, feature 2]) one_argument) =
     ''[{"name": "X"}{"name": "X"}]\<newline>''\<close>
  by code_simp

text \<open>
  C10.  Two sequences of records with the same fields and values in the same order,
  one listing an object twice and one holding two objects, give different outputs.
\<close>

theorem same_fields_different_output:
  \<open>map obj_dict [feature 1, feature 1] = map obj_dict [feature 1, feature 2] \<and>
   stdout (main (script_with [feature 1, feature 1]) one_argument) \<noteq>
   stdout (main (script_with [feature 1, feature 2]) one_argument)\<close>
  by code_simp

section \<open>Runs in which only the last element equals the last\<close>

text \<open>
  When the test of line 19 singles out the last element, the output of a successful run
  is a JSON array with one element per record, the object of that record at the same
  index.
\<close>

theorem regular_output_is_array:
  assumes "length argv = 2" "exec_script (argv ! 1) = Inr m" "BUILD_OPTIONS m = Sequence opts"
    and "status (main exec_script argv) = Exit 0" and "last_recognised (obj_eq m) opts"
  shows "\<exists>js. parse_json (stdout (main exec_script argv)) = Inr (JArray js) \<and>
     length js = length opts \<and>
     (\<forall>i<length opts. \<exists>d. obj_dict (opts ! i) = Some d \<and> json_of (PDict d) = Some (js ! i))"
proof -
  from main_success [OF assms(1-4)] obtain texts where
    texts: "map serialize opts = map Inr texts"
    and out: "stdout (main exec_script argv) =
      CHR ''['' # concat (map2 (printed (obj_eq m) opts) opts texts) @ [CHR '']'', CHR 0x0A]"
    by auto
  note len = serialized_texts(1) [OF texts]
  let ?sep = "[CHR '','', CHR 0x0A]"
  have out': "stdout (main exec_script argv) = CHR ''['' # join ?sep texts @ [CHR '']'', CHR 0x0A]"
    using out printed_join [OF assms(5), of texts] len by simp
  define js where "js = map (\<lambda>option. the (json_of (PDict (the (obj_dict option))))) opts"
  have each: "\<exists>d. obj_dict (opts ! i) = Some d \<and> dumps (PDict d) = Inr (texts ! i) \<and>
      json_of (PDict d) = Some (js ! i)" if "i < length opts" for i
  proof -
    from serialized_texts(2) [OF texts that] obtain d where
      d: "obj_dict (opts ! i) = Some d" "dumps (PDict d) = Inr (texts ! i)"
      by (auto simp: serialize_def split: option.splits simp del: dumps.simps)
    from parse_json_dumps [OF d(2)] obtain j where "json_of (PDict d) = Some j" by auto
    then show ?thesis using d that by (simp add: js_def del: dumps.simps json_of.simps)
  qed
  have all2: "list_all2 (\<lambda>t j. t \<noteq> [] \<and> value_start (hd t) \<and>
      (\<forall>n rest. length t \<le> n \<longrightarrow> number_end rest \<longrightarrow> p_value n (t @ rest) = Inr (j, rest))) texts js"
  proof (rule list_all2_all_nthI)
    show "length texts = length js" using len by (simp add: js_def)
  next
    fix i assume "i < length texts"
    then have i: "i < length opts" using len by simp
    from each [OF i] obtain d where d: "dumps (PDict d) = Inr (texts ! i)"
      "json_of (PDict d) = Some (js ! i)" by auto
    show "texts ! i \<noteq> [] \<and> value_start (hd (texts ! i)) \<and>
      (\<forall>n rest. length (texts ! i) \<le> n \<longrightarrow> number_end rest \<longrightarrow>
         p_value n (texts ! i @ rest) = Inr (js ! i, rest))"
      using dumps_head [OF d(1)] parse_dumps(1) [OF d(1)] d(2) by fastforce
  qed
  have parsed: "parse_json (stdout (main exec_script argv)) = Inr (JArray js)"
  proof (cases "texts = []")
    case True
    then have "js = []" using all2 by simp
    then show ?thesis using True by (simp add: out' parse_json_def is_ws_def eval_nat_numeral)
  next
    case False
    from all2 False have "hd texts \<noteq> []" "value_start (hd (hd texts))"
      by (cases texts; auto simp: list_all2_Cons1)+
    with False obtain c cs where c: "join ?sep texts = c # cs" "value_start c"
      using join_head [of texts ?sep] by (cases "join ?sep texts") auto
    have "p_elements (2 * length (stdout (main exec_script argv)))
        (join ?sep texts @ CHR '']'' # [CHR 0x0A]) = Inr (js, [CHR 0x0A])"
      by (rule p_elements_lines [OF all2 False]) (simp add: out')
    then show ?thesis using c
      by (simp add: out' parse_json_def is_ws_def value_start_def)
  qed
  show ?thesis using parsed each len by (auto simp: js_def simp del: json_of.simps)
qed

text \<open>Such an output depends on the dictionaries of the records alone.\<close>

lemma serialize_dict: "obj_dict a = obj_dict b \<Longrightarrow> serialize a = serialize b"
  by (simp add: serialize_def)

theorem regular_output_determined:
  assumes "length argv = 2" "exec_script (argv ! 1) = Inr m" "BUILD_OPTIONS m = Sequence opts"
    and "status (main exec_script argv) = Exit 0" and "last_recognised (obj_eq m) opts"
    and "length argv' = 2" "exec_script' (argv' ! 1) = Inr m'" "BUILD_OPTIONS m' = Sequence opts'"
    and "status (main exec_script' argv') = Exit 0" and "last_recognised (obj_eq m') opts'"
    and same: "map obj_dict opts = map obj_dict opts'"
  shows "stdout (main exec_script argv) = stdout (main exec_script' argv')"
proof -
  from main_success [OF assms(1-4)] obtain texts where
    texts: "map serialize opts = map Inr texts"
    and out: "stdout (main exec_script argv) =
      CHR ''['' # concat (map2 (printed (obj_eq m) opts) opts texts) @ [CHR '']'', CHR 0x0A]"
    by auto
  from main_success [OF assms(6-9)] obtain texts' where
    texts': "map serialize opts' = map Inr texts'"
    and out': "stdout (main exec_script' argv') =
      CHR ''['' # concat (map2 (printed (obj_eq m') opts') opts' texts') @ [CHR '']'', CHR 0x0A]"
    by auto
  have len: "length opts = length opts'" using same by (metis length_map)
  have "serialize (opts ! i) = serialize (opts' ! i)" if "i < length opts" for i
  proof -
    have "obj_dict (opts ! i) = obj_dict (opts' ! i)"
      using that len same by (metis nth_map)
    then show ?thesis by (rule serialize_dict)
  qed
  then have "map serialize opts = map serialize opts'"
    using len by (simp add: list_eq_iff_nth_eq)
  then have "map Inr texts = (map Inr texts' :: (py_error + string) list)"
    using texts texts' by simp
  then have eq: "texts = texts'" by simp
  show ?thesis
    using out out' printed_join [OF assms(5), of texts] printed_join [OF assms(10), of texts']
      serialized_texts(1) [OF texts] serialized_texts(1) [OF texts'] eq
    by simp
qed

end
